theory Spec2Isabelle
  imports Main "HOL-Library.Word"
begin

unbundle bit_operations_syntax

section \<open>Common vocabulary\<close>

text \<open>
  A Go \<^verbatim>\<open>panic\<close> is a value of its own, kept apart from the \<^verbatim>\<open>error\<close> a function
  returns. Only the panics the modelled functions can raise are listed.
\<close>

datatype panic =
    IndexOutOfRange        \<comment> \<open>runtime error: index or slice bounds out of range\<close>
  | AssertFail             \<comment> \<open>\<^verbatim>\<open>assert2\<close> with a false condition\<close>
  | NotImplementedYet      \<comment> \<open>\<^verbatim>\<open>panic("not implemented yet")\<close>\<close>

section \<open>Deletion policies (index/IndexDeletionPolicy)\<close>

text \<open>
  \<^verbatim>\<open>IndexCommit\<close> is an interface of which the policies use \<^verbatim>\<open>Delete()\<close> only. A commit
  is therefore any value of a type \<open>'c\<close>; what a policy does to the list it receives is
  the sequence of positions on which it called \<^verbatim>\<open>Delete()\<close>, in call order. A policy
  returns this sequence together with its \<^verbatim>\<open>error\<close> result (\<open>None\<close> is \<^verbatim>\<open>nil\<close>), or panics.
\<close>

type_synonym 'e policy_result = "panic + (nat list \<times> 'e option)"

definition NoDeletionPolicy_onCommit :: "'c list \<Rightarrow> 'e policy_result" where
  "NoDeletionPolicy_onCommit commits = Inr ([], None)"

definition NoDeletionPolicy_onInit :: "'c list \<Rightarrow> 'e policy_result" where
  "NoDeletionPolicy_onInit commits = Inr ([], None)"

text \<open>
  The loop of \<^verbatim>\<open>KeepOnlyLastCommitDeletionPolicy.onCommit\<close>:
  \<^verbatim>\<open>for i, limit := 0, len(commits); i < limit-1; i++ { commits[i].Delete() }\<close>.
  \<open>i\<close> and \<open>limit\<close> are Go \<^verbatim>\<open>int\<close>s; \<open>limit - 1\<close> is \<open>-1\<close> on the empty list, and
  \<open>i\<close> stays below \<open>limit\<close>, so nothing wraps. \<^verbatim>\<open>commits[i]\<close> panics out of range.
\<close>

function onCommit_loop :: "'c list \<Rightarrow> int \<Rightarrow> int \<Rightarrow> nat list \<Rightarrow> panic + nat list" where
  "onCommit_loop commits i limit deleted =
     (if i < limit - 1 then
        (if 0 \<le> i \<and> i < int (length commits)
         then onCommit_loop commits (i + 1) limit (deleted @ [nat i])
         else Inl IndexOutOfRange)
      else Inr deleted)"
  by pat_completeness auto
termination
  by (relation "measure (\<lambda>(commits, i, limit, deleted). nat (limit - 1 - i))") auto

declare onCommit_loop.simps [simp del]

definition KeepOnlyLastCommitDeletionPolicy_onCommit :: "'c list \<Rightarrow> 'e policy_result" where
  "KeepOnlyLastCommitDeletionPolicy_onCommit commits =
     (case onCommit_loop commits 0 (int (length commits)) [] of
        Inl p \<Rightarrow> Inl p
      | Inr deleted \<Rightarrow> Inr (deleted, None))"

definition KeepOnlyLastCommitDeletionPolicy_onInit :: "'c list \<Rightarrow> 'e policy_result" where
  "KeepOnlyLastCommitDeletionPolicy_onInit commits =
     KeepOnlyLastCommitDeletionPolicy_onCommit commits"

section \<open>Index file deleter (index/IndexFileDeleter)\<close>

text \<open>
  \<^verbatim>\<open>type IndexFileDeleter struct {}\<close> has no field, and \<^verbatim>\<open>checkpoint\<close> consists of
  \<^verbatim>\<open>panic("not implemented yet")\<close>. \<^verbatim>\<open>SegmentInfos\<close> is declared elsewhere and is a
  type parameter here.
\<close>

datatype IndexFileDeleter = IndexFileDeleter

definition checkpoint ::
  "IndexFileDeleter \<Rightarrow> 'si \<Rightarrow> bool \<Rightarrow> panic + (IndexFileDeleter \<times> 'e option)" where
  "checkpoint del segmentInfos isCommit = Inl NotImplementedYet"

section \<open>Serial merge scheduler (index/SerialMergeScheduler)\<close>

text \<open>
  \<^verbatim>\<open>IndexWriter\<close>, with its \<^verbatim>\<open>nextMerge\<close> and \<^verbatim>\<open>merge\<close>, is declared outside the
  sources at hand. The writer is its queue of pending merges, oldest first, and the
  log of the merges it has executed, in execution order. A merge is a value of a type
  \<open>'m\<close>; what executing it returns is given by a parameter \<open>run\<close> (\<open>None\<close> is \<^verbatim>\<open>nil\<close>).
\<close>

record 'm IndexWriter =
  pendingMerges :: "'m list"
  executed :: "'m list"

text \<open>
  Modelled from the spec: \<^verbatim>\<open>IndexWriter.nextMerge\<close> is missing; the spec gives
  \<^verbatim>\<open>nextMerge() -> OneMerge | none\<close>, which "pops the next queued merge, or none if
  empty".
\<close>

definition nextMerge :: "'m IndexWriter \<Rightarrow> 'm option \<times> 'm IndexWriter" where
  "nextMerge writer =
     (case pendingMerges writer of
        [] \<Rightarrow> (None, writer)
      | m # ms \<Rightarrow> (Some m, writer\<lparr>pendingMerges := ms\<rparr>))"

text \<open>
  Modelled from the spec: \<^verbatim>\<open>IndexWriter.merge\<close> is missing; the spec gives
  \<^verbatim>\<open>merge(OneMerge) -> error\<close>, which "executes one merge synchronously in the calling
  context". The execution is recorded in the writer's log.
\<close>

definition writer_merge ::
  "('m \<Rightarrow> 'e option) \<Rightarrow> 'm IndexWriter \<Rightarrow> 'm \<Rightarrow> 'e option \<times> 'm IndexWriter" where
  "writer_merge run writer m = (run m, writer\<lparr>executed := executed writer @ [m]\<rparr>)"

text \<open>
  The loop of \<^verbatim>\<open>SerialMergeScheduler.Merge\<close>:
  \<^verbatim>\<open>for merge := writer.nextMerge(); merge != nil && err == nil; merge = writer.nextMerge() {
    err = writer.merge(merge) }\<close>.
  One iteration runs the body and then the post statement, so the next merge is pulled
  from the writer before the condition looks at \<open>err\<close>. The mutex taken around the loop
  has no effect on a single caller and is left out.
\<close>

function Merge_loop ::
  "('m \<Rightarrow> 'e option) \<Rightarrow> 'm option \<Rightarrow> 'e option \<Rightarrow> 'm IndexWriter
     \<Rightarrow> 'e option \<times> 'm IndexWriter" where
  "Merge_loop run merge err writer =
     (if merge \<noteq> None \<and> err = None then
        (case writer_merge run writer (the merge) of (err', writer') \<Rightarrow>
           (case nextMerge writer' of (merge', writer'') \<Rightarrow>
              Merge_loop run merge' err' writer''))
      else (err, writer))"
  by pat_completeness auto
termination
  by (relation "measure (\<lambda>(run, merge, err, writer).
        (case merge of None \<Rightarrow> 0 | Some m \<Rightarrow> Suc (length (pendingMerges writer))))")
     (auto simp: writer_merge_def nextMerge_def split: list.splits option.splits)

declare Merge_loop.simps [simp del]

definition SerialMergeScheduler_Merge ::
  "('m \<Rightarrow> 'e option) \<Rightarrow> 'm IndexWriter \<Rightarrow> 'e option \<times> 'm IndexWriter" where
  "SerialMergeScheduler_Merge run writer =
     (case nextMerge writer of (merge, writer') \<Rightarrow> Merge_loop run merge None writer')"

text \<open>An execution function for examples: the merge named \<open>m1\<close> fails, every other succeeds.\<close>

definition m1_fails :: "string \<Rightarrow> string option" where
  "m1_fails m = (if m = ''m1'' then Some ''m1 failed'' else None)"

section \<open>Locks (store/Lock)\<close>

definition LOCK_POOL_INTERVAL :: int where
  "LOCK_POOL_INTERVAL = 1000"

definition LOCK_OBTAIN_WAIT_FOREVER :: int where
  "LOCK_OBTAIN_WAIT_FOREVER = -1"

text \<open>
  \<^verbatim>\<open>LockImpl\<close> holds the concrete lock \<^verbatim>\<open>self\<close> and the \<^verbatim>\<open>failureReason\<close>. The concrete
  lock is an interface value: its state is a value of a type \<open>'s\<close>, and its \<^verbatim>\<open>Obtain()\<close>
  is a parameter that maps the \<^verbatim>\<open>LockImpl\<close> before the call to the pair
  \<^verbatim>\<open>(ok, err)\<close> and the \<^verbatim>\<open>LockImpl\<close> after it, so that it may change its own state and set
  \<^verbatim>\<open>failureReason\<close>. Errors of the concrete lock are values of a type \<open>'e\<close>.
\<close>

record ('s, 'e) LockImpl =
  self :: 's
  failureReason :: "'e option"

type_synonym ('s, 'e) obtain_fn =
  "('s, 'e) LockImpl \<Rightarrow> (bool \<times> 'e option) \<times> ('s, 'e) LockImpl"

text \<open>
  The \<^verbatim>\<open>error\<close> that \<^verbatim>\<open>ObtainWithin\<close> returns is either the one \<^verbatim>\<open>Obtain()\<close> returned or
  the one built by \<^verbatim>\<open>errors.New("Lock obtain time out: ...")\<close>, whose text carries the
  \<^verbatim>\<open>failureReason\<close> when there is one.
\<close>

datatype 'e lock_error =
    ObtainError 'e
  | LockObtainTimeOut "'e option"

text \<open>
  What \<^verbatim>\<open>ObtainWithin\<close> does to the outside is the sequence of its calls of \<^verbatim>\<open>Obtain()\<close>
  and of \<^verbatim>\<open>time.Sleep\<close>, the latter with the duration in milliseconds. \<^verbatim>\<open>Obtain()\<close>
  "immediately returns", so the time a call of \<^verbatim>\<open>ObtainWithin\<close> takes is the time it
  sleeps.
\<close>

datatype event = ObtainCalled | Slept int

fun elapsed_ms :: "event list \<Rightarrow> int" where
  "elapsed_ms [] = 0"
| "elapsed_ms (ObtainCalled # es) = elapsed_ms es"
| "elapsed_ms (Slept ms # es) = ms + elapsed_ms es"

fun attempts :: "event list \<Rightarrow> nat" where
  "attempts [] = 0"
| "attempts (ObtainCalled # es) = Suc (attempts es)"
| "attempts (Slept ms # es) = attempts es"

text \<open>Go's \<^verbatim>\<open>/\<close> on integers truncates towards zero.\<close>

definition go_div :: "int \<Rightarrow> int \<Rightarrow> int" where
  "go_div a b = sgn a * sgn b * (\<bar>a\<bar> div \<bar>b\<bar>)"

text \<open>
  A call of \<^verbatim>\<open>ObtainWithin\<close> ends in a panic or returns \<^verbatim>\<open>(locked, err)\<close>; either way
  the \<^verbatim>\<open>LockImpl\<close> and the events so far are part of the result. A call that never ends
  has no result (\<open>None\<close>).
\<close>

type_synonym ('s, 'e) obtained =
  "(panic + (bool \<times> 'e lock_error option)) \<times> ('s, 'e) LockImpl \<times> event list"

text \<open>
  The loop of \<^verbatim>\<open>ObtainWithin\<close>:
  \<^verbatim>\<open>for sleepCount := int64(0); !locked; locked, err = lock.self.Obtain() { ... }\<close>.
  The condition looks at \<open>locked\<close> only. \<open>sleepCount\<close> is an \<^verbatim>\<open>int64\<close>; it is compared
  only when the timeout is finite, and then it stays at most \<open>maxSleepCount\<close>, so its
  wrap-around never shows and it is an \<open>int\<close> here.
\<close>

partial_function (option) ObtainWithin_loop ::
  "('s, 'e) obtain_fn \<Rightarrow> int \<Rightarrow> int \<Rightarrow> int \<Rightarrow> bool \<Rightarrow> 'e option \<Rightarrow> ('s, 'e) LockImpl
     \<Rightarrow> event list \<Rightarrow> ('s, 'e) obtained option" where
  "ObtainWithin_loop Obtain lockWaitTimeout maxSleepCount sleepCount locked err lock trace =
     (if \<not> locked then
        (if lockWaitTimeout \<noteq> LOCK_OBTAIN_WAIT_FOREVER \<and> sleepCount \<ge> maxSleepCount
         then Some (Inr (locked, Some (LockObtainTimeOut (failureReason lock))), lock, trace)
         else
           (case Obtain lock of ((locked', err'), lock') \<Rightarrow>
              ObtainWithin_loop Obtain lockWaitTimeout maxSleepCount (sleepCount + 1)
                locked' err' lock' (trace @ [Slept LOCK_POOL_INTERVAL, ObtainCalled])))
      else Some (Inr (locked, map_option ObtainError err), lock, trace))"

text \<open>
  Modelled from the spec: \<^verbatim>\<open>assert2\<close> is missing from the sources. It is taken to panic
  when its condition is false, as the \<^verbatim>\<open>assert\<close> of the same file does; this is how an
  invalid parameter is "reported immediately and synchronously".
\<close>

definition assert2 :: "bool \<Rightarrow> panic option" where
  "assert2 ok = (if ok then None else Some AssertFail)"

definition ObtainWithin ::
  "('s, 'e) obtain_fn \<Rightarrow> int \<Rightarrow> ('s, 'e) LockImpl \<Rightarrow> ('s, 'e) obtained option" where
  "ObtainWithin Obtain lockWaitTimeout lock =
     (case Obtain (lock\<lparr>failureReason := None\<rparr>) of ((locked, err), lock') \<Rightarrow>
        (if err \<noteq> None
         then Some (Inr (locked, map_option ObtainError err), lock', [ObtainCalled])
         else
           (case assert2 (lockWaitTimeout \<ge> 0 \<or> lockWaitTimeout = LOCK_OBTAIN_WAIT_FOREVER) of
              Some p \<Rightarrow> Some (Inl p, lock', [ObtainCalled])
            | None \<Rightarrow>
                ObtainWithin_loop Obtain lockWaitTimeout
                  (go_div lockWaitTimeout LOCK_POOL_INTERVAL) 0 locked err lock' [ObtainCalled])))"

text \<open>
  Concrete locks for examples: one whose \<^verbatim>\<open>Obtain()\<close> always returns \<^verbatim>\<open>(false, nil)\<close>, one
  whose \<^verbatim>\<open>Obtain()\<close> always returns an error, and one that counts the calls of
  \<^verbatim>\<open>Obtain()\<close> and gives the lock at the third.
\<close>

definition Obtain_never :: "(unit, string) obtain_fn" where
  "Obtain_never lock = ((False, None), lock)"

definition Obtain_error :: "(unit, string) obtain_fn" where
  "Obtain_error lock = ((False, Some ''denied''), lock\<lparr>failureReason := Some ''denied''\<rparr>)"

definition Obtain_third :: "(nat, string) obtain_fn" where
  "Obtain_third lock = ((self lock \<ge> 2, None), lock\<lparr>self := self lock + 1\<rparr>)"

definition fresh_lock :: "(unit, string) LockImpl" where
  "fresh_lock = \<lparr>self = (), failureReason = None\<rparr>"

definition counting_lock :: "(nat, string) LockImpl" where
  "counting_lock = \<lparr>self = 0, failureReason = None\<rparr>"

section \<open>Byte store (index/bytes.go)\<close>

type_synonym byte = "8 word"
type_synonym uint32 = "32 word"

text \<open>
  \<^verbatim>\<open>blocks\<close> is a slice of byte slices. The slice \<^verbatim>\<open>current\<close> shares its array with one
  of the blocks, and so does the slice a reader holds: a write through either changes
  the block. Such a slice is therefore the position of its block in \<^verbatim>\<open>blocks\<close>, and
  \<open>None\<close> is the \<^verbatim>\<open>nil\<close> slice. The embedded \<^verbatim>\<open>DataOutput\<close> holds the two closures
  \<^verbatim>\<open>WriteByte\<close> and \<^verbatim>\<open>WriteBytes\<close>, which are functions on the store here.
\<close>

record BytesStore =
  blocks :: "byte list list"
  blockSize :: uint32
  blockBits :: uint32
  blockMask :: uint32
  current :: "nat option"
  nextWrite :: uint32

text \<open>
  \<^verbatim>\<open>uint32(1) << blockBits\<close> is 0 when \<open>blockBits\<close> is 32 or more, as \<open>push_bit\<close> on a
  32-bit word is.
\<close>

definition newBytesStore :: "uint32 \<Rightarrow> BytesStore" where
  "newBytesStore bits =
     (let size = push_bit (unat bits) (1 :: uint32)
      in \<lparr>blocks = [], blockSize = size, blockBits = bits, blockMask = size - 1,
          current = None, nextWrite = size\<rparr>)"

definition WriteByte :: "byte \<Rightarrow> BytesStore \<Rightarrow> panic + BytesStore" where
  "WriteByte b bs =
     (let bs1 = (if nextWrite bs = blockSize bs
                 then bs\<lparr>current := Some (length (blocks bs)),
                         blocks := blocks bs @ [replicate (unat (blockSize bs)) 0],
                         nextWrite := 0\<rparr>
                 else bs)
      in case current bs1 of
           None \<Rightarrow> Inl IndexOutOfRange
         | Some c \<Rightarrow>
             if c < length (blocks bs1) \<and> unat (nextWrite bs1) < length (blocks bs1 ! c)
             then Inr (bs1\<lparr>blocks := (blocks bs1)[c := (blocks bs1 ! c)[unat (nextWrite bs1) := b]],
                           nextWrite := nextWrite bs1 + 1\<rparr>)
             else Inl IndexOutOfRange)"

text \<open>A sequence of \<^verbatim>\<open>WriteByte\<close> calls, stopping at the first panic.\<close>

fun WriteByte_all :: "byte list \<Rightarrow> BytesStore \<Rightarrow> panic + BytesStore" where
  "WriteByte_all [] bs = Inr bs"
| "WriteByte_all (b # rest) bs =
     (case WriteByte b bs of Inl p \<Rightarrow> Inl p | Inr bs' \<Rightarrow> WriteByte_all rest bs')"

text \<open>
  The two readers. \<^verbatim>\<open>ByteStoreForwardReader\<close> reads a store of any number of blocks;
  its \<^verbatim>\<open>current\<close> is the field \<open>r_current\<close>. \<^verbatim>\<open>ForwardBytesReader\<close> reads one block: its
  constructor leaves the field \<^verbatim>\<open>bytes\<close> \<^verbatim>\<open>nil\<close> (\<open>bytes_field\<close>), and its closures use
  the constructor's parameter \<^verbatim>\<open>bytes\<close> (\<open>bytes_arg\<close>), the slice \<^verbatim>\<open>bs.blocks[0]\<close>.
  \<^verbatim>\<open>pos\<close> is an \<^verbatim>\<open>int32\<close>, read with \<open>sint\<close>.
\<close>

record ByteStoreForwardReader =
  r_current :: "nat option"
  nextBuffer :: uint32
  nextRead :: uint32

record ForwardBytesReader =
  bytes_field :: "nat option"
  bytes_arg :: nat
  pos :: "32 word"

datatype BytesReader = Forward ForwardBytesReader | StoreForward ByteStoreForwardReader

definition newForwardBytesReader :: "nat \<Rightarrow> ForwardBytesReader" where
  "newForwardBytesReader bytes = \<lparr>bytes_field = None, bytes_arg = bytes, pos = 0\<rparr>"

definition forwardReader :: "BytesStore \<Rightarrow> BytesReader" where
  "forwardReader bs =
     (if length (blocks bs) = 1 then Forward (newForwardBytesReader 0)
      else StoreForward \<lparr>r_current = None, nextBuffer = 0, nextRead = blockSize bs\<rparr>)"

text \<open>The value of an \<^verbatim>\<open>int64\<close> expression: the integer, wrapped to 64 bits, signed.\<close>

definition int64 :: "int \<Rightarrow> int" where
  "int64 x = sint (word_of_int x :: 64 word)"

text \<open>
  \<^verbatim>\<open>getPosition\<close> of the multi-block reader:
  \<^verbatim>\<open>(int64(self.nextBuffer)-1)*int64(bs.blockSize) + int64(self.nextRead)\<close>.
\<close>

definition getPosition :: "BytesStore \<Rightarrow> ByteStoreForwardReader \<Rightarrow> int" where
  "getPosition bs r = int64 ((uint (nextBuffer r) - 1) * uint (blockSize bs) + uint (nextRead r))"

text \<open>
  \<^verbatim>\<open>setPosition\<close> of the multi-block reader. \<open>p\<close> is the value of the \<^verbatim>\<open>int64\<close> argument.
  \<^verbatim>\<open>pos >> bs.blockBits\<close> is an arithmetic shift, the floor of the division by the power
  of two for every shift count; \<^verbatim>\<open>uint32(...)\<close> keeps the low 32 bits; \<^verbatim>\<open>bs.blocks[i]\<close>
  panics out of range.
\<close>

definition setPosition ::
  "BytesStore \<Rightarrow> int \<Rightarrow> ByteStoreForwardReader \<Rightarrow> panic + ByteStoreForwardReader" where
  "setPosition bs p r =
     (let bufferIndex = p div 2 ^ unat (blockBits bs);
          r1 = r\<lparr>nextBuffer := word_of_int (bufferIndex + 1)\<rparr>
      in if 0 \<le> bufferIndex \<and> bufferIndex < int (length (blocks bs))
         then Inr (r1\<lparr>r_current := Some (nat bufferIndex),
                       nextRead := word_of_int p AND blockMask bs\<rparr>)
         else Inl IndexOutOfRange)"

text \<open>
  \<^verbatim>\<open>ReadBytes\<close> of the single-block reader:
  \<^verbatim>\<open>copy(bytes[self.pos:], buf); self.pos += int32(len(buf)); return len(buf), nil\<close>.
  \<^verbatim>\<open>copy(dst, src)\<close> copies \<open>min (len dst) (len src)\<close> bytes from \<open>src\<close> to \<open>dst\<close>;
  here \<open>dst\<close> is the block from \<open>pos\<close> on and \<open>src\<close> is \<open>buf\<close>. The slice expression
  panics unless \<open>0 \<le> pos \<le> len bytes\<close>. The result is what the call returns, the
  store, the reader and \<open>buf\<close> after the call.
\<close>

definition ForwardBytesReader_ReadBytes ::
  "BytesStore \<Rightarrow> ForwardBytesReader \<Rightarrow> byte list
     \<Rightarrow> panic + ((nat \<times> unit option) \<times> BytesStore \<times> ForwardBytesReader \<times> byte list)" where
  "ForwardBytesReader_ReadBytes bs r buf =
     (if bytes_arg r < length (blocks bs) then
        (let bytes = blocks bs ! bytes_arg r; p = sint (pos r)
         in if 0 \<le> p \<and> p \<le> int (length bytes) then
              (let n = min (length bytes - nat p) (length buf);
                   bytes' = take (nat p) bytes @ take n buf @ drop (nat p + n) bytes
               in Inr ((length buf, None),
                       bs\<lparr>blocks := (blocks bs)[bytes_arg r := bytes']\<rparr>,
                       r\<lparr>pos := pos r + word_of_nat (length buf)\<rparr>,
                       buf))
            else Inl IndexOutOfRange)
      else Inl IndexOutOfRange)"

text \<open>
  The number of bytes written to a store: every block but the last is full, and the
  last holds \<open>nextWrite\<close> bytes.
\<close>

definition written :: "BytesStore \<Rightarrow> nat" where
  "written bs =
     (if blocks bs = [] then 0
      else (length (blocks bs) - 1) * unat (blockSize bs) + unat (nextWrite bs))"

text \<open>
  What \<^verbatim>\<open>newBytesStore\<close> establishes and every \<^verbatim>\<open>WriteByte\<close> keeps: the three block
  constants as the constructor sets them, blocks of \<open>blockSize\<close> bytes, and \<^verbatim>\<open>current\<close>
  the last block.
\<close>

definition BytesStore_ok :: "BytesStore \<Rightarrow> bool" where
  "BytesStore_ok bs \<longleftrightarrow>
     blockSize bs = push_bit (unat (blockBits bs)) 1
     \<and> blockMask bs = blockSize bs - 1
     \<and> nextWrite bs \<le> blockSize bs
     \<and> (\<forall>b \<in> set (blocks bs). length b = unat (blockSize bs))
     \<and> (case current bs of
          None \<Rightarrow> blocks bs = [] \<and> nextWrite bs = blockSize bs
        | Some c \<Rightarrow> blocks bs \<noteq> [] \<and> c = length (blocks bs) - 1)"

text \<open>
  Stores for examples: the store of block size 1 after \<open>k\<close> writes of the byte \<open>b\<close>, the
  store of block size 4 after the writes of 1, 2, 3, 4, and the store of block size 2
  after the writes of 1, 2, 3.
\<close>

definition single_byte_blocks :: "byte \<Rightarrow> nat \<Rightarrow> BytesStore" where
  "single_byte_blocks b k =
     \<lparr>blocks = replicate k [b], blockSize = 1, blockBits = 0, blockMask = 0,
      current = (if k = 0 then None else Some (k - 1)), nextWrite = 1\<rparr>"

definition one_block_store :: BytesStore where
  "one_block_store =
     \<lparr>blocks = [[1, 2, 3, 4]], blockSize = 4, blockBits = 2, blockMask = 3,
      current = Some 0, nextWrite = 4\<rparr>"

definition two_block_store :: BytesStore where
  "two_block_store =
     \<lparr>blocks = [[1, 2], [3, 0]], blockSize = 2, blockBits = 1, blockMask = 1,
      current = Some 1, nextWrite = 1\<rparr>"

section \<open>Properties of the deletion policies\<close>

lemma onCommit_loop_run:
  "onCommit_loop commits (int k) (int (length commits)) deleted =
     Inr (deleted @ [k ..< length commits - 1])"
proof (induction "length commits - 1 - k" arbitrary: k deleted)
  case 0
  then have "\<not> int k < int (length commits) - 1" and "[k ..< length commits - 1] = []"
    by auto
  then show ?case
    by (subst onCommit_loop.simps) simp
next
  case (Suc d)
  then have lt: "k < length commits - 1" and d: "d = length commits - 1 - Suc k"
    by auto
  from lt have cond: "int k < int (length commits) - 1" "int k < int (length commits)"
    by auto
  have step: "onCommit_loop commits (int k) (int (length commits)) deleted =
        onCommit_loop commits (int (Suc k)) (int (length commits)) (deleted @ [k])"
    using cond by (subst onCommit_loop.simps) (simp add: add.commute)
  from lt have "[k ..< length commits - 1] = k # [Suc k ..< length commits - 1]"
    by (simp add: upt_conv_Cons)
  with step Suc.hyps(1) [OF d, of "deleted @ [k]"] show ?case
    by simp
qed

text \<open>
  C3. On a non-empty list of commits, ordered oldest first, \<^verbatim>\<open>onCommit\<close> of the
  keep-only-last policy calls \<^verbatim>\<open>Delete()\<close> on every position but the last, once each
  and in list order, never on the last position, and returns \<^verbatim>\<open>nil\<close>.
\<close>

theorem onCommit_deletes_all_but_last:
  "commits \<noteq> [] \<Longrightarrow>
   (\<exists>deleted.
      (KeepOnlyLastCommitDeletionPolicy_onCommit commits :: 'e policy_result)
        = Inr (deleted, None)
      \<and> deleted = [0 ..< length commits - 1]
      \<and> (\<forall>i < length commits - 1. i \<in> set deleted)
      \<and> length commits - 1 \<notin> set deleted)"
  using onCommit_loop_run [of commits 0 "[]"]
  by (simp add: KeepOnlyLastCommitDeletionPolicy_onCommit_def)

theorem onCommit_deletes_all_but_last_witness:
  "[''c1'', ''c2'', ''c3''] \<noteq> []
   \<and> (KeepOnlyLastCommitDeletionPolicy_onCommit [''c1'', ''c2'', ''c3''] :: unit policy_result)
       = Inr ([0, 1], None)"
  using onCommit_deletes_all_but_last [of "[''c1'', ''c2'', ''c3'']", where ?'e = unit]
  by (simp add: upt_conv_Cons)

text \<open>
  C4. \<^verbatim>\<open>onInit\<close> of the keep-only-last policy makes the same \<^verbatim>\<open>Delete()\<close> calls and
  returns the same result as \<^verbatim>\<open>onCommit\<close> on the same list of commits.
\<close>

theorem onInit_eq_onCommit:
  "(KeepOnlyLastCommitDeletionPolicy_onInit commits :: 'e policy_result)
     = KeepOnlyLastCommitDeletionPolicy_onCommit commits"
  by (simp add: KeepOnlyLastCommitDeletionPolicy_onInit_def)

text \<open>
  C10. On the empty list and on a list of one commit, \<^verbatim>\<open>onCommit\<close> of the
  keep-only-last policy calls \<^verbatim>\<open>Delete()\<close> on nothing and returns \<^verbatim>\<open>nil\<close>; it does not
  panic, so no index outside the list is read.
\<close>

theorem onCommit_short_lists:
  "(KeepOnlyLastCommitDeletionPolicy_onCommit [] :: 'e policy_result) = Inr ([], None)
   \<and> (KeepOnlyLastCommitDeletionPolicy_onCommit [c] :: 'e policy_result) = Inr ([], None)"
  by (simp add: KeepOnlyLastCommitDeletionPolicy_onCommit_def onCommit_loop.simps)

section \<open>Properties of the index file deleter\<close>

text \<open>
  C1. The claim is that after any sequence of \<^verbatim>\<open>checkpoint\<close> calls every file's
  reference count is the number of live generations naming it, never negative, and
  that a file whose count reaches zero is deleted at once. The code keeps no
  reference count: every call of \<^verbatim>\<open>checkpoint\<close>, whatever its arguments, panics with
  "not implemented yet".
\<close>

theorem checkpoint_panics:
  "(checkpoint del segmentInfos isCommit :: panic + (IndexFileDeleter \<times> 'e option))
     = Inl NotImplementedYet"
  by (simp add: checkpoint_def)

section \<open>Properties of the serial merge scheduler\<close>

lemma Merge_loop_ok:
  "run m = None \<Longrightarrow>
   Merge_loop run (Some m) None w =
     (case nextMerge (w\<lparr>executed := executed w @ [m]\<rparr>) of (merge', w') \<Rightarrow>
        Merge_loop run merge' None w')"
  by (subst Merge_loop.simps) (simp add: writer_merge_def)

lemma Merge_loop_fail:
  "run m = Some e \<Longrightarrow>
   Merge_loop run (Some m) None w =
     (Some e, snd (nextMerge (w\<lparr>executed := executed w @ [m]\<rparr>)))"
  apply (subst Merge_loop.simps) 
  apply (simp add: writer_merge_def split: prod.splits)
  apply (subst Merge_loop.simps)
  apply simp
  done

lemma Merge_loop_all_ok:
  "\<forall>x \<in> set (m # pendingMerges w). run x = None \<Longrightarrow>
   Merge_loop run (Some m) None w =
     (None, w\<lparr>pendingMerges := [], executed := executed w @ m # pendingMerges w\<rparr>)"
proof (induction "pendingMerges w" arbitrary: w m)
  case Nil
  then show ?case
    using Merge_loop_ok [of run m w]
    by (simp add: nextMerge_def Merge_loop.simps [of _ None])
next
  case (Cons x xs)
  let ?w' = "w\<lparr>executed := executed w @ [m], pendingMerges := xs\<rparr>"
  have "Merge_loop run (Some x) None ?w' =
     (None, ?w'\<lparr>pendingMerges := [], executed := executed ?w' @ x # pendingMerges ?w'\<rparr>)"
    using Cons.prems Cons.hyps(2) [symmetric] by (intro Cons.hyps(1)) simp_all
  with Cons.prems Cons.hyps(2) [symmetric] show ?case
    using Merge_loop_ok [of run m w] by (simp add: nextMerge_def)
qed

lemma Merge_loop_first_failure:
  "m # pendingMerges w = ok @ f # rest \<Longrightarrow> \<forall>x \<in> set ok. run x = None \<Longrightarrow> run f = Some e \<Longrightarrow>
   Merge_loop run (Some m) None w =
     (Some e, w\<lparr>pendingMerges := tl rest, executed := executed w @ ok @ [f]\<rparr>)"
proof (induction ok arbitrary: w m)
  case Nil
  then show ?case
    using Merge_loop_fail [of run m e w]
    by (cases rest) (simp_all add: nextMerge_def)
next
  case (Cons x ok)
  from Cons.prems(1) have m: "m = x" and pm: "pendingMerges w = ok @ f # rest" by simp_all
  obtain y ys where ys: "ok @ f # rest = y # ys" by (cases ok) simp_all
  let ?w' = "w\<lparr>executed := executed w @ [m], pendingMerges := ys\<rparr>"
  have "Merge_loop run (Some y) None ?w' =
     (Some e, ?w'\<lparr>pendingMerges := tl rest, executed := executed ?w' @ ok @ [f]\<rparr>)"
    using Cons.prems ys by (intro Cons.IH) simp_all
  with Cons.prems m pm ys show ?case
    using Merge_loop_ok [of run m w] by (simp add: nextMerge_def)
qed

lemma Merge_all_succeed:
  assumes "\<forall>m \<in> set (pendingMerges w). run m = None"
  shows "SerialMergeScheduler_Merge run w =
     (None, w\<lparr>pendingMerges := [], executed := executed w @ pendingMerges w\<rparr>)"
proof (cases "pendingMerges w")
  case Nil
  then show ?thesis
    by (simp add: SerialMergeScheduler_Merge_def nextMerge_def Merge_loop.simps [of _ None])
next
  case (Cons m ms)
  with assms Merge_loop_all_ok [of m "w\<lparr>pendingMerges := ms\<rparr>" run] show ?thesis
    by (simp add: SerialMergeScheduler_Merge_def nextMerge_def)
qed

lemma Merge_first_failure:
  assumes "pendingMerges w = ok @ f # rest" and "\<forall>x \<in> set ok. run x = None"
    and "run f = Some e"
  shows "SerialMergeScheduler_Merge run w =
     (Some e, w\<lparr>pendingMerges := tl rest, executed := executed w @ ok @ [f]\<rparr>)"
proof -
  from assms(1) have "pendingMerges w \<noteq> []" by simp
  then obtain m ms where ms: "pendingMerges w = m # ms"
    by (cases "pendingMerges w") simp_all
  let ?w = "w\<lparr>pendingMerges := ms\<rparr>"
  from ms have start: "SerialMergeScheduler_Merge run w = Merge_loop run (Some m) None ?w"
    by (simp add: SerialMergeScheduler_Merge_def nextMerge_def)
  from ms assms(1) have "m # pendingMerges ?w = ok @ f # rest" by simp
  from Merge_loop_first_failure [OF this assms(2) assms(3)]
  have "Merge_loop run (Some m) None ?w =
     (Some e, ?w\<lparr>pendingMerges := tl rest, executed := executed ?w @ ok @ [f]\<rparr>)" .
  with start show ?thesis by simp
qed

text \<open>
  C2. The claim is that \<^verbatim>\<open>Merge\<close> executes the queued merges in order, stops at the
  first one that returns an error and returns that error, and leaves every merge after
  the failing one un-executed and still in the queue. The code does stop and return the
  error, and executes nothing after the failing merge, but the loop's post statement
  has already pulled the merge that follows the failing one: on the queue
  \<open>m1, m2, m3\<close> with \<open>m1\<close> failing, \<open>m2\<close> is neither executed nor in the queue
  afterwards, and on \<open>m1, m2\<close> the queue is left empty.
\<close>

theorem Merge_drops_merge_after_failure:
  "SerialMergeScheduler_Merge m1_fails \<lparr>pendingMerges = [''m1'', ''m2'', ''m3''], executed = []\<rparr>
     = (Some ''m1 failed'', \<lparr>pendingMerges = [''m3''], executed = [''m1'']\<rparr>)
   \<and> SerialMergeScheduler_Merge m1_fails \<lparr>pendingMerges = [''m1'', ''m2''], executed = []\<rparr>
     = (Some ''m1 failed'', \<lparr>pendingMerges = [], executed = [''m1'']\<rparr>)"
  by (simp add: SerialMergeScheduler_Merge_def nextMerge_def writer_merge_def m1_fails_def
      Merge_loop.simps)

section \<open>Properties of the lock\<close>

lemmas lock_consts = LOCK_POOL_INTERVAL_def LOCK_OBTAIN_WAIT_FOREVER_def

lemma loop_locked:
  "ObtainWithin_loop Obtain t m sc True err lock tr =
     Some (Inr (True, map_option ObtainError err), lock, tr)"
  by (subst ObtainWithin_loop.simps) simp

lemma loop_timed_out:
  "t \<noteq> LOCK_OBTAIN_WAIT_FOREVER \<Longrightarrow> m \<le> sc \<Longrightarrow>
   ObtainWithin_loop Obtain t m sc False err lock tr =
     Some (Inr (False, Some (LockObtainTimeOut (failureReason lock))), lock, tr)"
  by (subst ObtainWithin_loop.simps) simp

lemma loop_poll:
  "t = LOCK_OBTAIN_WAIT_FOREVER \<or> sc < m \<Longrightarrow>
   ObtainWithin_loop Obtain t m sc False err lock tr =
     ObtainWithin_loop Obtain t m (sc + 1) (fst (fst (Obtain lock))) (snd (fst (Obtain lock)))
       (snd (Obtain lock)) (tr @ [Slept LOCK_POOL_INTERVAL, ObtainCalled])"
  by (subst ObtainWithin_loop.simps) (auto split: prod.splits)

lemma loop_forever_result:
  assumes "ObtainWithin_loop Obtain t m sc locked err lock tr = Some r"
  shows "t = LOCK_OBTAIN_WAIT_FOREVER \<longrightarrow>
    (\<exists>e lock' tr'. r = (Inr (True, map_option ObtainError e), lock', tr'))"
  using assms
proof (induct rule: ObtainWithin_loop.raw_induct [rotated 1, consumes 1])
  case (1 loop Obtain t m sc locked err lock tr r)
  show ?case
  proof (cases locked)
    case True
    with "1"(2) show ?thesis by auto
  next
    case False
    show ?thesis
    proof
      assume t: "t = LOCK_OBTAIN_WAIT_FOREVER"
      with False "1"(2) have
        "loop Obtain t m (sc + 1) (fst (fst (Obtain lock))) (snd (fst (Obtain lock)))
           (snd (Obtain lock)) (tr @ [Slept LOCK_POOL_INTERVAL, ObtainCalled]) = Some r"
        by (simp add: case_prod_beta)
      from "1"(1) [OF this] t
      show "\<exists>e lock' tr'. r = (Inr (True, map_option ObtainError e), lock', tr')" by simp
    qed
  qed
qed

lemma loop_forever_never_locked:
  assumes "ObtainWithin_loop Obtain t m sc locked err lock tr = Some r"
  shows "\<not> (t = LOCK_OBTAIN_WAIT_FOREVER \<and> \<not> locked \<and> (\<forall>l. \<not> fst (fst (Obtain l))))"
  using assms
proof (induct rule: ObtainWithin_loop.raw_induct [rotated 1, consumes 1])
  case (1 loop Obtain t m sc locked err lock tr r)
  show ?case
  proof
    assume a: "t = LOCK_OBTAIN_WAIT_FOREVER \<and> \<not> locked \<and> (\<forall>l. \<not> fst (fst (Obtain l)))"
    with "1"(2) have
      "loop Obtain t m (sc + 1) (fst (fst (Obtain lock))) (snd (fst (Obtain lock)))
         (snd (Obtain lock)) (tr @ [Slept LOCK_POOL_INTERVAL, ObtainCalled]) = Some r"
      by (simp add: case_prod_beta)
    from "1"(1) [OF this] a show False by simp
  qed
qed

lemma loop_forever_returns:
  "fst (fst (Obtain (((\<lambda>l. snd (Obtain l)) ^^ n) lock))) \<Longrightarrow>
   \<exists>r. ObtainWithin_loop Obtain LOCK_OBTAIN_WAIT_FOREVER m sc locked err lock tr = Some r"
proof (induction n arbitrary: sc locked err lock tr)
  case 0
  then show ?case
    by (cases locked) (simp_all add: loop_locked loop_poll)
next
  case (Suc n)
  show ?case
  proof (cases locked)
    case True
    then show ?thesis by (simp add: loop_locked)
  next
    case False
    from Suc.prems have "fst (fst (Obtain (((\<lambda>l. snd (Obtain l)) ^^ n) (snd (Obtain lock)))))"
      by (simp only: funpow_Suc_right o_apply)
    from Suc.IH [OF this] False show ?thesis
      by (simp add: loop_poll)
  qed
qed

text \<open>
  C5 (amended). On a lock whose \<^verbatim>\<open>Obtain()\<close> always returns \<^verbatim>\<open>(false, nil)\<close>,
  \<^verbatim>\<open>ObtainWithin(2500)\<close> calls \<^verbatim>\<open>Obtain()\<close> three times with a sleep of 1000 ms between
  two calls, and then returns \<^verbatim>\<open>false\<close> with the timeout error, which carries the
  \<^verbatim>\<open>failureReason\<close>. It sleeps twice, 2000 ms in all: \<open>maxSleepCount\<close> is 2500 / 1000
  = 2, rounded down, so the call gives up before the 2500 ms have passed and not
  between 2.5 and 3.5 seconds after it started.
\<close>

theorem ObtainWithin_2500_always_failing:
  assumes fail: "\<forall>l. fst (Obtain l) = (False, None)"
  shows "\<exists>lock'.
     ObtainWithin Obtain 2500 lock =
       Some (Inr (False, Some (LockObtainTimeOut (failureReason lock'))), lock',
             [ObtainCalled, Slept 1000, ObtainCalled, Slept 1000, ObtainCalled])
     \<and> attempts [ObtainCalled, Slept 1000, ObtainCalled, Slept 1000, ObtainCalled] = 3
     \<and> elapsed_ms [ObtainCalled, Slept 1000, ObtainCalled, Slept 1000, ObtainCalled] = 2000"
proof -
  from fail have f1: "\<And>l. fst (fst (Obtain l)) = False" and f2: "\<And>l. snd (fst (Obtain l)) = None"
    by simp_all
  show ?thesis
    by (simp add: ObtainWithin_def assert2_def go_div_def lock_consts loop_poll loop_timed_out
        f1 f2 case_prod_beta)
qed

theorem ObtainWithin_2500_always_failing_witness:
  "(\<forall>l. fst (Obtain_never l) = (False, None))
   \<and> ObtainWithin Obtain_never 2500 fresh_lock =
       Some (Inr (False, Some (LockObtainTimeOut None)), fresh_lock,
             [ObtainCalled, Slept 1000, ObtainCalled, Slept 1000, ObtainCalled])"
proof -
  have h: "\<forall>l. fst (Obtain_never l) = (False, None)"
    by (simp add: Obtain_never_def)
  have "ObtainWithin Obtain_never 2500 fresh_lock =
       Some (Inr (False, Some (LockObtainTimeOut None)), fresh_lock,
             [ObtainCalled, Slept 1000, ObtainCalled, Slept 1000, ObtainCalled])"
    by (simp add: ObtainWithin_def Obtain_never_def fresh_lock_def assert2_def go_div_def
        lock_consts loop_poll loop_timed_out)
  with h ObtainWithin_2500_always_failing [OF h, of fresh_lock] show ?thesis
    by simp
qed

theorem ObtainWithin_2500_elapsed_counterexample:
  "ObtainWithin Obtain_never 2500 fresh_lock =
     Some (Inr (False, Some (LockObtainTimeOut None)), fresh_lock,
           [ObtainCalled, Slept 1000, ObtainCalled, Slept 1000, ObtainCalled])
   \<and> elapsed_ms [ObtainCalled, Slept 1000, ObtainCalled, Slept 1000, ObtainCalled] = 2000
   \<and> \<not> (2500 \<le> elapsed_ms [ObtainCalled, Slept 1000, ObtainCalled, Slept 1000, ObtainCalled]
        \<and> elapsed_ms [ObtainCalled, Slept 1000, ObtainCalled, Slept 1000, ObtainCalled] \<le> 3500)"
  by (simp add: ObtainWithin_def Obtain_never_def fresh_lock_def assert2_def go_div_def
      lock_consts loop_poll loop_timed_out)

text \<open>
  C6 (amended). With a negative timeout other than \<^verbatim>\<open>LOCK_OBTAIN_WAIT_FOREVER\<close>,
  \<^verbatim>\<open>ObtainWithin\<close> first calls \<^verbatim>\<open>Obtain()\<close> once. If that call returns an error,
  \<^verbatim>\<open>ObtainWithin\<close> returns this error and the invalid timeout is not reported; if it
  returns no error, whether or not it obtained the lock, the invalid timeout is
  reported by the panic of the assertion, before any sleep and any second call of
  \<^verbatim>\<open>Obtain()\<close>. So the report comes after the first attempt, not before it, and only when
  that attempt returns no error.
\<close>

theorem ObtainWithin_invalid_timeout:
  assumes "lockWaitTimeout < 0" and "lockWaitTimeout \<noteq> LOCK_OBTAIN_WAIT_FOREVER"
  shows "ObtainWithin Obtain lockWaitTimeout lock =
     (case Obtain (lock\<lparr>failureReason := None\<rparr>) of
        ((locked, Some e), lock') \<Rightarrow> Some (Inr (locked, Some (ObtainError e)), lock', [ObtainCalled])
      | ((locked, None), lock') \<Rightarrow> Some (Inl AssertFail, lock', [ObtainCalled]))"
  using assms by (simp add: ObtainWithin_def assert2_def split: prod.splits option.splits)

theorem ObtainWithin_invalid_timeout_witness:
  "(-5 :: int) < 0 \<and> (-5 :: int) \<noteq> LOCK_OBTAIN_WAIT_FOREVER
   \<and> ObtainWithin Obtain_never (-5) fresh_lock = Some (Inl AssertFail, fresh_lock, [ObtainCalled])"
proof -
  have h1: "(-5 :: int) < 0" and h2: "(-5 :: int) \<noteq> LOCK_OBTAIN_WAIT_FOREVER"
    by (simp_all add: lock_consts)
  from ObtainWithin_invalid_timeout [OF h1 h2, of Obtain_never fresh_lock] h1 h2 show ?thesis
    by (simp add: Obtain_never_def fresh_lock_def)
qed

theorem ObtainWithin_invalid_timeout_counterexample:
  "ObtainWithin Obtain_error (-5) fresh_lock =
     Some (Inr (False, Some (ObtainError ''denied'')),
           \<lparr>self = (), failureReason = Some ''denied''\<rparr>, [ObtainCalled])
   \<and> attempts [ObtainCalled] = 1"
  by (simp add: ObtainWithin_def Obtain_error_def fresh_lock_def)

text \<open>
  C7. With the timeout \<^verbatim>\<open>LOCK_OBTAIN_WAIT_FOREVER\<close>, whenever \<^verbatim>\<open>ObtainWithin\<close> returns,
  it does not panic, its error is not the timeout error, and either the lock was
  obtained or the first call of \<^verbatim>\<open>Obtain()\<close> returned the error and was the only call.
  It does return as soon as some call of \<^verbatim>\<open>Obtain()\<close> obtains the lock, and on a lock
  whose \<^verbatim>\<open>Obtain()\<close> always returns \<^verbatim>\<open>(false, nil)\<close> it never returns. (The loop looks at
  \<open>locked\<close> only: an error of a later call that did not obtain the lock does not end the
  polling.)
\<close>

theorem ObtainWithin_wait_forever:
  "(\<forall>out lock' tr. ObtainWithin Obtain LOCK_OBTAIN_WAIT_FOREVER lock = Some (out, lock', tr) \<longrightarrow>
      (\<exists>locked err. out = Inr (locked, err)
         \<and> (\<forall>reason. err \<noteq> Some (LockObtainTimeOut reason))
         \<and> (locked \<or> (\<exists>e. err = Some (ObtainError e) \<and> tr = [ObtainCalled]))))
   \<and> ((\<exists>n. fst (fst (Obtain (((\<lambda>l. snd (Obtain l)) ^^ n) (lock\<lparr>failureReason := None\<rparr>)))))
        \<longrightarrow> ObtainWithin Obtain LOCK_OBTAIN_WAIT_FOREVER lock \<noteq> None)
   \<and> ((\<forall>l. fst (Obtain l) = (False, None))
        \<longrightarrow> ObtainWithin Obtain LOCK_OBTAIN_WAIT_FOREVER lock = None)"
proof (intro conjI allI impI)
  fix out lock' tr
  assume ret: "ObtainWithin Obtain LOCK_OBTAIN_WAIT_FOREVER lock = Some (out, lock', tr)"
  obtain locked err l1 where o: "Obtain (lock\<lparr>failureReason := None\<rparr>) = ((locked, err), l1)"
    by (metis prod.exhaust)
  show "\<exists>locked err. out = Inr (locked, err)
         \<and> (\<forall>reason. err \<noteq> Some (LockObtainTimeOut reason))
         \<and> (locked \<or> (\<exists>e. err = Some (ObtainError e) \<and> tr = [ObtainCalled]))"
  proof (cases err)
    case (Some e)
    with ret o show ?thesis
      by (auto simp: ObtainWithin_def)
  next
    case None
    with ret o have "ObtainWithin_loop Obtain LOCK_OBTAIN_WAIT_FOREVER
        (go_div LOCK_OBTAIN_WAIT_FOREVER LOCK_POOL_INTERVAL) 0 locked err l1 [ObtainCalled]
        = Some (out, lock', tr)"
      by (simp add: ObtainWithin_def assert2_def)
    from loop_forever_result [OF this] show ?thesis
      by auto
  qed
next
  assume "\<exists>n. fst (fst (Obtain (((\<lambda>l. snd (Obtain l)) ^^ n) (lock\<lparr>failureReason := None\<rparr>))))"
  then obtain n where n: "fst (fst (Obtain (((\<lambda>l. snd (Obtain l)) ^^ n) (lock\<lparr>failureReason := None\<rparr>))))" ..
  obtain locked err l1 where o: "Obtain (lock\<lparr>failureReason := None\<rparr>) = ((locked, err), l1)"
    by (metis prod.exhaust)
  show "ObtainWithin Obtain LOCK_OBTAIN_WAIT_FOREVER lock \<noteq> None"
  proof (cases "err = None \<and> \<not> locked")
    case False
    with o show ?thesis
      by (auto simp: ObtainWithin_def assert2_def loop_locked)
  next
    case True
    with n o obtain k where "n = Suc k" by (cases n) auto
    from n have "fst (fst (Obtain (((\<lambda>l. snd (Obtain l)) ^^ k)
        (snd (Obtain (lock\<lparr>failureReason := None\<rparr>))))))"
      unfolding \<open>n = Suc k\<close> by (simp only: funpow_Suc_right o_apply)
    with o have "fst (fst (Obtain (((\<lambda>l. snd (Obtain l)) ^^ k) l1)))"
      by simp
    with loop_forever_returns [of Obtain k l1] True o show ?thesis
      by (simp add: ObtainWithin_def assert2_def)
  qed
next
  assume never: "\<forall>l. fst (Obtain l) = (False, None)"
  show "ObtainWithin Obtain LOCK_OBTAIN_WAIT_FOREVER lock = None"
  proof (rule ccontr)
    assume "ObtainWithin Obtain LOCK_OBTAIN_WAIT_FOREVER lock \<noteq> None"
    then obtain r where r: "ObtainWithin Obtain LOCK_OBTAIN_WAIT_FOREVER lock = Some r" by auto
    from never have nl: "\<forall>l. \<not> fst (fst (Obtain l))" by simp
    from never have "fst (Obtain (lock\<lparr>failureReason := None\<rparr>)) = (False, None)" by simp
    with r have "ObtainWithin_loop Obtain LOCK_OBTAIN_WAIT_FOREVER
        (go_div LOCK_OBTAIN_WAIT_FOREVER LOCK_POOL_INTERVAL) 0 False None
        (snd (Obtain (lock\<lparr>failureReason := None\<rparr>))) [ObtainCalled] = Some r"
      by (simp add: ObtainWithin_def assert2_def split: prod.splits)
    from loop_forever_never_locked [OF this] nl show False by simp
  qed
qed

theorem ObtainWithin_wait_forever_witness:
  "fst (fst (Obtain_third (((\<lambda>l. snd (Obtain_third l)) ^^ 2)
      (counting_lock\<lparr>failureReason := None\<rparr>))))
   \<and> ObtainWithin Obtain_third LOCK_OBTAIN_WAIT_FOREVER counting_lock \<noteq> None
   \<and> ObtainWithin Obtain_third LOCK_OBTAIN_WAIT_FOREVER counting_lock =
       Some (Inr (True, None), \<lparr>self = 3, failureReason = None\<rparr>,
             [ObtainCalled, Slept 1000, ObtainCalled, Slept 1000, ObtainCalled])
   \<and> (\<forall>l. fst (Obtain_never l) = (False, None))
   \<and> ObtainWithin Obtain_never LOCK_OBTAIN_WAIT_FOREVER fresh_lock = None"
proof -
  have h: "fst (fst (Obtain_third (((\<lambda>l. snd (Obtain_third l)) ^^ 2)
      (counting_lock\<lparr>failureReason := None\<rparr>))))"
    by (simp add: Obtain_third_def counting_lock_def numeral_2_eq_2)
  then have ex: "\<exists>n. fst (fst (Obtain_third (((\<lambda>l. snd (Obtain_third l)) ^^ n)
      (counting_lock\<lparr>failureReason := None\<rparr>))))" ..
  have n: "\<forall>l. fst (Obtain_never l) = (False, None)"
    by (simp add: Obtain_never_def)
  have r: "ObtainWithin Obtain_third LOCK_OBTAIN_WAIT_FOREVER counting_lock =
       Some (Inr (True, None), \<lparr>self = 3, failureReason = None\<rparr>,
             [ObtainCalled, Slept 1000, ObtainCalled, Slept 1000, ObtainCalled])"
    by (simp add: ObtainWithin_def Obtain_third_def counting_lock_def assert2_def
        LOCK_POOL_INTERVAL_def loop_poll loop_locked)
  from ObtainWithin_wait_forever [of Obtain_third counting_lock] ex
  have "ObtainWithin Obtain_third LOCK_OBTAIN_WAIT_FOREVER counting_lock \<noteq> None"
    by blast
  moreover from ObtainWithin_wait_forever [of Obtain_never fresh_lock] n
  have "ObtainWithin Obtain_never LOCK_OBTAIN_WAIT_FOREVER fresh_lock = None"
    by blast
  ultimately show ?thesis using h n r by simp
qed

section \<open>Properties of the byte store\<close>

lemma int64_id: "- (2 ^ 63) \<le> x \<Longrightarrow> x < 2 ^ 63 \<Longrightarrow> int64 x = x"
  by (simp add: int64_def sint_sbintrunc' signed_take_bit_int_eq_self)

lemma uint_pow2:
  assumes "n < 32"
  shows "uint (2 ^ n :: uint32) = 2 ^ n"
proof -
  have "uint (2 ^ n :: uint32) = uint (word_of_int (2 ^ n) :: uint32)"
    by (simp only: word_of_int_2p)
  also have "\<dots> = take_bit LENGTH(32) (2 ^ n :: int)"
    by (rule uint_word_of_int_eq)
  also have "\<dots> = 2 ^ n"
  proof (rule take_bit_int_eq_self)
    from assms have "(2 :: int) ^ n < 2 ^ 32"
      by (intro power_strict_increasing) simp_all
    then show "(2 :: int) ^ n < 2 ^ LENGTH(32)" by simp
  qed simp
  finally show ?thesis .
qed

lemma uint_low_bits:
  assumes "b \<le> 32"
  shows "uint ((word_of_int p :: uint32) AND mask b) = p mod 2 ^ b"
proof -
  have "uint ((word_of_int p :: uint32) AND mask b) = uint (take_bit b (word_of_int p :: uint32))"
    by (simp only: take_bit_eq_mask)
  also have "\<dots> = take_bit b (take_bit LENGTH(32) p)"
    by (simp only: unsigned_take_bit_eq uint_word_of_int_eq)
  also from assms have "\<dots> = take_bit b p"
    by (simp add: min_def)
  finally show ?thesis
    by (simp only: take_bit_int_def)
qed

lemma uint_next:
  assumes "0 \<le> q" "q + 1 < 2 ^ 32"
  shows "uint (word_of_int (q + 1) :: uint32) = q + 1"
proof -
  have "uint (word_of_int (q + 1) :: uint32) = take_bit LENGTH(32) (q + 1)"
    by (rule uint_word_of_int_eq)
  also from assms have "\<dots> = q + 1"
    by (intro take_bit_int_eq_self) simp_all
  finally show ?thesis .
qed


lemma ok_bits:
  assumes ok: "BytesStore_ok bs" and w: "0 < written bs"
  shows "unat (blockBits bs) < 32"
proof (rule ccontr)
  assume "\<not> unat (blockBits bs) < 32"
  then have pz: "push_bit (unat (blockBits bs)) (1 :: uint32) = 0"
    by (simp add: push_bit_word_beyond)
  from ok have s: "blockSize bs = push_bit (unat (blockBits bs)) 1"
    and nw: "nextWrite bs \<le> blockSize bs"
    unfolding BytesStore_ok_def by blast+
  from s pz have bz: "blockSize bs = 0" by (rule trans)
  with nw have "nextWrite bs = 0" by simp
  with bz w show False by (simp add: written_def split: if_splits)
qed

lemma ok_size:
  assumes ok: "BytesStore_ok bs" and b: "unat (blockBits bs) < 32"
  shows "uint (blockSize bs) = 2 ^ unat (blockBits bs)"
    and "blockMask bs = mask (unat (blockBits bs))"
proof -
  from ok have s: "blockSize bs = push_bit (unat (blockBits bs)) 1"
    and m: "blockMask bs = blockSize bs - 1"
    unfolding BytesStore_ok_def by blast+
  from s have s': "blockSize bs = 2 ^ unat (blockBits bs)" by simp
  from b show "uint (blockSize bs) = 2 ^ unat (blockBits bs)"
    unfolding s' by (rule uint_pow2)
  show "blockMask bs = mask (unat (blockBits bs))"
    unfolding m s' by (simp add: mask_eq_decr_exp)
qed

lemma newBytesStore_ok: "BytesStore_ok (newBytesStore bits)"
  by (simp add: BytesStore_ok_def newBytesStore_def Let_def)

lemma newBytesStore_written: "written (newBytesStore bits) = 0"
  by (simp add: written_def newBytesStore_def Let_def)

lemma unat_succ_below:
  fixes w s :: uint32
  assumes "unat w < unat s"
  shows "unat (w + 1) = Suc (unat w)"
proof -
  have "unat s < 2 ^ 32" using unsigned_less [of s, where ?'a = nat] by simp
  with assms have "unat w + 1 < 2 ^ 32" by simp
  then show ?thesis
    by (simp add: unat_word_ariths)
qed

lemma WriteByte_ok:
  assumes ok: "BytesStore_ok bs" and wr: "WriteByte b bs = Inr bs'"
  shows "BytesStore_ok bs' \<and> written bs' = Suc (written bs)"
proof -
  from ok have s: "blockSize bs = push_bit (unat (blockBits bs)) 1"
    and m: "blockMask bs = blockSize bs - 1"
    and nw: "nextWrite bs \<le> blockSize bs"
    and len: "\<forall>b \<in> set (blocks bs). length b = unat (blockSize bs)"
    and cur: "case current bs of
          None \<Rightarrow> blocks bs = [] \<and> nextWrite bs = blockSize bs
        | Some c \<Rightarrow> blocks bs \<noteq> [] \<and> c = length (blocks bs) - 1"
    unfolding BytesStore_ok_def by blast+
  show ?thesis
  proof (cases "nextWrite bs = blockSize bs")
    case True
    let ?n = "length (blocks bs)"
    let ?blk = "(replicate (unat (blockSize bs)) 0)[0 := b]"
    from wr True have pos: "0 < unat (blockSize bs)"
      by (simp add: WriteByte_def Let_def split: if_splits)
    from wr True pos have bs': "bs' = bs\<lparr>current := Some ?n,
        blocks := blocks bs @ [?blk], nextWrite := 1\<rparr>"
      by (auto simp: WriteByte_def Let_def list_update_append split: if_splits)
    from pos have one: "(1 :: uint32) \<le> blockSize bs" "unat (1 :: uint32) = 1"
      by (simp_all add: word_le_nat_alt)
    have w0: "written bs = ?n * unat (blockSize bs)"
    proof (cases "blocks bs")
      case Nil
      then show ?thesis by (simp add: written_def)
    next
      case (Cons x xs)
      with True show ?thesis by (simp add: written_def)
    qed
    have "written bs' = Suc (written bs)"
      unfolding w0 by (simp add: bs' written_def)
    moreover have "BytesStore_ok bs'"
      unfolding BytesStore_ok_def using s m len one by (simp add: bs')
    ultimately show ?thesis by simp
  next
    case False
    with cur obtain c where c: "current bs = Some c" "blocks bs \<noteq> []" "c = length (blocks bs) - 1"
      by (cases "current bs") auto
    from False nw have lt: "unat (nextWrite bs) < unat (blockSize bs)"
      by (simp add: word_le_nat_alt word_unat_eq_iff)
    note suc = unat_succ_below [OF lt]
    from wr False c have bs': "bs' = bs\<lparr>blocks := (blocks bs)[c := (blocks bs ! c)[unat (nextWrite bs) := b]],
        nextWrite := nextWrite bs + 1\<rparr>"
      by (auto simp: WriteByte_def Let_def split: if_splits)
    from lt have le': "nextWrite bs + 1 \<le> blockSize bs"
      by (simp only: word_le_nat_alt suc Suc_le_eq)
    have len': "\<forall>x \<in> set ((blocks bs)[c := (blocks bs ! c)[unat (nextWrite bs) := b]]).
        length x = unat (blockSize bs)"
    proof
      fix x assume "x \<in> set ((blocks bs)[c := (blocks bs ! c)[unat (nextWrite bs) := b]])"
      then have "x \<in> insert ((blocks bs ! c)[unat (nextWrite bs) := b]) (set (blocks bs))"
        by (rule set_update_subset_insert [THEN subsetD])
      moreover from c have "blocks bs ! c \<in> set (blocks bs)" by simp
      ultimately show "length x = unat (blockSize bs)" using len by auto
    qed
    have "written bs' = Suc (written bs)"
      using c suc by (simp add: bs' written_def)
    moreover have "BytesStore_ok bs'"
      unfolding BytesStore_ok_def using s m len' le' c by (simp add: bs')
    ultimately show ?thesis by simp
  qed
qed


lemma WriteByte_single_byte_blocks:
  "WriteByte b (single_byte_blocks b k) = Inr (single_byte_blocks b (Suc k))"
  by (simp add: WriteByte_def single_byte_blocks_def Let_def nth_append list_update_append
      replicate_append_same)

lemma WriteByte_all_single_byte_blocks:
  "WriteByte_all (replicate n b) (single_byte_blocks b k) = Inr (single_byte_blocks b (k + n))"
  by (induction n arbitrary: k) (simp_all add: WriteByte_single_byte_blocks)

lemma newBytesStore_0: "newBytesStore 0 = single_byte_blocks b 0"
  by (simp add: newBytesStore_def single_byte_blocks_def)

lemma WriteByte_all_one_block:
  "WriteByte_all [1, 2, 3, 4] (newBytesStore 2) = Inr one_block_store"
  by code_simp

lemma WriteByte_all_two_blocks:
  "WriteByte_all [1, 2, 3] (newBytesStore 1) = Inr two_block_store"
  by code_simp

text \<open>
  C8. The claim is that \<^verbatim>\<open>ReadBytes(buf)\<close> of the reader of a one-block store copies
  the next \<open>len(buf)\<close> stored bytes into \<open>buf\<close>, advances the position by \<open>len(buf)\<close>,
  returns \<open>(len(buf), nil)\<close> and leaves the store as it was. The code calls
  \<^verbatim>\<open>copy(bytes[self.pos:], buf)\<close>, whose first argument is the destination: it copies
  \<open>buf\<close> into the store's block and leaves \<open>buf\<close> as it was. On the store holding
  1, 2, 3, 4, reading into a buffer of two zero bytes returns \<open>(2, nil)\<close> and advances
  the position to 2, but the buffer still holds 0, 0 and the store now holds 0, 0, 3, 4.
  (\<^verbatim>\<open>ReadBytes\<close> of the multi-block reader copies from the block into \<open>buf\<close>.)
\<close>

theorem ForwardBytesReader_ReadBytes_overwrites_store:
  "WriteByte_all [1, 2, 3, 4] (newBytesStore 2) = Inr one_block_store
   \<and> forwardReader one_block_store = Forward \<lparr>bytes_field = None, bytes_arg = 0, pos = 0\<rparr>
   \<and> ForwardBytesReader_ReadBytes one_block_store
         \<lparr>bytes_field = None, bytes_arg = 0, pos = 0\<rparr> [0, 0]
       = Inr ((2, None),
              one_block_store\<lparr>blocks := [[0, 0, 3, 4]]\<rparr>,
              \<lparr>bytes_field = None, bytes_arg = 0, pos = 2\<rparr>,
              [0, 0])"
  using WriteByte_all_one_block
  by (simp add: forwardReader_def newForwardBytesReader_def ForwardBytesReader_ReadBytes_def
      one_block_store_def)

text \<open>
  Where \<^verbatim>\<open>nextBuffer\<close> does not wrap, the decomposition of a position is exact: for the
  multi-block forward reader of a store built by \<^verbatim>\<open>newBytesStore\<close> and \<^verbatim>\<open>WriteByte\<close>, and
  every position \<open>p\<close> with \<open>0 \<le> p\<close> below the number of bytes written whose buffer index
  plus one, \<open>(p >> blockBits) + 1\<close>, is below \<open>2 ^ 32\<close>, \<^verbatim>\<open>setPosition(p)\<close> does not panic
  and \<^verbatim>\<open>getPosition()\<close> then returns \<open>p\<close>.
\<close>

lemma setPosition_getPosition_below_wrap:
  assumes ok: "BytesStore_ok bs" and multi: "forwardReader bs = StoreForward r"
    and p0: "0 \<le> p" and pw: "p < int (written bs)"
    and fit: "p div 2 ^ unat (blockBits bs) + 1 < 2 ^ 32"
  shows "\<exists>r'. setPosition bs p r = Inr r' \<and> getPosition bs r' = p"
proof -
  define b where "b = unat (blockBits bs)"
  define q where "q = p div 2 ^ b"
  from p0 pw have w: "0 < written bs" by simp
  from ok_bits [OF ok w] have b32: "b < 32" by (simp add: b_def)
  from ok_size [OF ok ok_bits [OF ok w]]
  have size: "uint (blockSize bs) = 2 ^ b" and msk: "blockMask bs = mask b"
    by (simp_all add: b_def)
  from size have usize: "unat (blockSize bs) = 2 ^ b"
    by (metis nat_int nat_power_eq of_nat_numeral unat_eq_nat_uint zero_le_numeral nat_numeral)
  from w have ne: "blocks bs \<noteq> []" by (simp add: written_def split: if_splits)
  from ok have "nextWrite bs \<le> blockSize bs"
    unfolding BytesStore_ok_def by blast
  then have "unat (nextWrite bs) \<le> 2 ^ b"
    by (simp add: word_le_nat_alt usize)
  with ne have "written bs \<le> (length (blocks bs) - 1) * 2 ^ b + 2 ^ b"
    by (simp add: written_def usize)
  also from ne have "\<dots> = length (blocks bs) * 2 ^ b"
    by (cases "blocks bs") simp_all
  finally have "int (written bs) \<le> int (length (blocks bs) * 2 ^ b)"
    by (simp only: of_nat_le_iff)
  with pw have plen: "p < int (length (blocks bs)) * 2 ^ b"
    by simp
  have pq: "q * 2 ^ b + p mod 2 ^ b = p" by (simp only: q_def div_mult_mod_eq)
  have qlen: "q < int (length (blocks bs))"
  proof (rule ccontr)
    assume "\<not> q < int (length (blocks bs))"
    then have "int (length (blocks bs)) * 2 ^ b \<le> q * 2 ^ b"
      by (intro mult_right_mono) simp_all
    moreover have "0 \<le> p mod 2 ^ b" by simp
    ultimately show False using pq plen by linarith
  qed
  from p0 have q0: "0 \<le> q" by (simp add: q_def pos_imp_zdiv_nonneg_iff)
  from fit have qfit: "q + 1 < 2 ^ 32" by (simp add: q_def b_def)
  have nb: "uint (word_of_int (q + 1) :: uint32) = q + 1"
    using q0 qfit by (rule uint_next)
  have nr: "uint ((word_of_int p :: uint32) AND mask b) = p mod 2 ^ b"
    using b32 by (intro uint_low_bits) simp
  have pow: "(2 :: int) ^ b \<le> 2 ^ 31"
    using b32 by (intro power_increasing) simp_all
  with qfit q0 have "q * 2 ^ b \<le> (2 ^ 32 - 2) * 2 ^ 31"
    by (intro mult_mono) simp_all
  then have qb: "q * 2 ^ b \<le> 9223372032559808512" by simp
  from pow have pow': "(2 :: int) ^ b \<le> 2147483648" by simp
  have low: "p mod 2 ^ b < 2 ^ b" by simp
  from qb pow' low pq have "p < 9223372036854775808" by linarith
  then have "p < 2 ^ 63" by simp
  with p0 have "int64 p = p" by (intro int64_id) simp_all
  with pq q0 qlen nb nr size msk show ?thesis
    by (simp add: setPosition_def getPosition_def Let_def q_def [symmetric] b_def [symmetric])
qed


lemma setPosition_getPosition_two_blocks:
  "WriteByte_all [1, 2, 3] (newBytesStore 1) = Inr two_block_store
   \<and> BytesStore_ok two_block_store
   \<and> forwardReader two_block_store = StoreForward \<lparr>r_current = None, nextBuffer = 0, nextRead = 2\<rparr>
   \<and> (0 :: int) \<le> 2
   \<and> (2 :: int) < int (written two_block_store)
   \<and> (2 :: int) div 2 ^ unat (blockBits two_block_store) + 1 < 2 ^ 32
   \<and> (\<exists>r'. setPosition two_block_store 2 \<lparr>r_current = None, nextBuffer = 0, nextRead = 2\<rparr> = Inr r'
          \<and> getPosition two_block_store r' = 2)"
proof -
  have ok: "BytesStore_ok two_block_store"
    by (simp add: BytesStore_ok_def two_block_store_def)
  have multi: "forwardReader two_block_store
      = StoreForward \<lparr>r_current = None, nextBuffer = 0, nextRead = 2\<rparr>"
    by (simp add: forwardReader_def two_block_store_def)
  have p0: "(0 :: int) \<le> 2" by simp
  have pw: "(2 :: int) < int (written two_block_store)"
    by (simp add: written_def two_block_store_def)
  have fit: "(2 :: int) div 2 ^ unat (blockBits two_block_store) + 1 < 2 ^ 32"
    by (simp add: two_block_store_def)
  from setPosition_getPosition_below_wrap [OF ok multi p0 pw fit] ok multi pw fit WriteByte_all_two_blocks
  show ?thesis by simp
qed

lemma single_byte_blocks_ok: "BytesStore_ok (single_byte_blocks b k)"
  by (simp add: BytesStore_ok_def single_byte_blocks_def)

text \<open>
  C9. The claim is that for the multi-block forward reader and every non-negative
  position \<open>p\<close> within the written bytes, \<^verbatim>\<open>setPosition(p)\<close> followed by
  \<^verbatim>\<open>getPosition()\<close> returns \<open>p\<close>; the code says the same in \<^verbatim>\<open>setPosition\<close>, with the
  comment \<^verbatim>\<open>// assert self.getPosition() == pos\<close>. The code stores the buffer index plus
  one in the \<^verbatim>\<open>uint32\<close> field \<^verbatim>\<open>nextBuffer\<close>, as \<^verbatim>\<open>uint32(bufferIndex + 1)\<close>, which wraps
  at \<open>2 ^ 32\<close>. In the store of block size 1 after \<open>2 ^ 32\<close> calls of \<^verbatim>\<open>WriteByte\<close>, at
  the last written position \<open>2 ^ 32 - 1\<close>, \<^verbatim>\<open>setPosition\<close> does not panic, \<^verbatim>\<open>nextBuffer\<close>
  becomes 0, and \<^verbatim>\<open>getPosition()\<close> returns \<open>-1\<close>.
\<close>

theorem setPosition_getPosition_wraps:
  "WriteByte_all (replicate 4294967296 0) (newBytesStore 0) = Inr (single_byte_blocks 0 4294967296)
   \<and> forwardReader (single_byte_blocks 0 4294967296)
       = StoreForward \<lparr>r_current = None, nextBuffer = 0, nextRead = 1\<rparr>
   \<and> written (single_byte_blocks 0 4294967296) = 4294967296
   \<and> setPosition (single_byte_blocks 0 4294967296) 4294967295
         \<lparr>r_current = None, nextBuffer = 0, nextRead = 1\<rparr>
       = Inr \<lparr>r_current = Some 4294967295, nextBuffer = 0, nextRead = 0\<rparr>
   \<and> getPosition (single_byte_blocks 0 4294967296)
         \<lparr>r_current = Some 4294967295, nextBuffer = 0, nextRead = 0\<rparr> = - 1"
proof -
  have 1: "WriteByte_all (replicate 4294967296 0) (newBytesStore 0)
      = Inr (single_byte_blocks 0 4294967296)"
    using WriteByte_all_single_byte_blocks [of 4294967296 0 0]
    by (simp add: newBytesStore_0 [of 0])
  have 2: "forwardReader (single_byte_blocks 0 4294967296)
       = StoreForward \<lparr>r_current = None, nextBuffer = 0, nextRead = 1\<rparr>"
    by (simp add: forwardReader_def single_byte_blocks_def)
  have 3: "written (single_byte_blocks 0 4294967296) = 4294967296"
    by (simp add: written_def single_byte_blocks_def)
  have 4: "setPosition (single_byte_blocks 0 4294967296) 4294967295
         \<lparr>r_current = None, nextBuffer = 0, nextRead = 1\<rparr>
       = Inr \<lparr>r_current = Some 4294967295, nextBuffer = 0, nextRead = 0\<rparr>"
    by (simp add: setPosition_def single_byte_blocks_def)
  have 5: "getPosition (single_byte_blocks 0 4294967296)
         \<lparr>r_current = Some 4294967295, nextBuffer = 0, nextRead = 0\<rparr> = - 1"
    by (simp add: getPosition_def single_byte_blocks_def int64_def)
  from 1 2 3 4 5 show ?thesis by simp
qed

end
